theory Spec2Isabelle
  imports Complex_Main
begin

section \<open>The analog ranking of \<^verbatim>\<open>src/main.py\<close>\<close>

text \<open>
  The development embeds \<^verbatim>\<open>get_analog\<close> (lines 27 to 95 of \<^verbatim>\<open>src/main.py\<close>).
  Years, the look-back, the exponent and the number of years to return are Python
  integers (\<open>int\<close>). Observations are the numbers of the two JSON files, Python
  floats; they are modelled as exact reals. Rounding is outside the model, and so are
  the infinities that a float subtraction or a float sum can silently produce: sums and
  differences are exact, so two total distances tie in the model when they are equal as
  reals. The exceptions of the float power are part of the model.
  The two dictionaries returned by \<^verbatim>\<open>retrieve_oni_values\<close> and
  \<^verbatim>\<open>retrieve_pdo_values\<close> are only ever read by key, so they are maps from a year
  to its list of observations. The dictionaries that \<^verbatim>\<open>get_analog\<close> builds are iterated,
  so they are association lists in insertion order.
\<close>

subsection \<open>Errors and Python primitives\<close>

datatype error = KeyError int | ZeroDivisionError | OverflowError | ValueError

type_synonym series = "int \<rightharpoonup> real list"

type_synonym 'v dict = "(int \<times> 'v) list"

text \<open>\<^verbatim>\<open>d[k]\<close> on a dictionary that is only read: a missing key raises \<^verbatim>\<open>KeyError\<close>.\<close>

definition lookup :: "series \<Rightarrow> int \<Rightarrow> error + real list" where
  "lookup d k = (case d k of None \<Rightarrow> Inl (KeyError k) | Some v \<Rightarrow> Inr v)"

text \<open>\<^verbatim>\<open>range(a, b)\<close>: the integers from \<open>a\<close> up to \<open>b - 1\<close>, empty when \<open>b \<le> a\<close>.\<close>

definition range_py :: "int \<Rightarrow> int \<Rightarrow> int list" where
  "range_py a b = [a..b - 1]"

text \<open>
  A list comprehension whose body may raise: the elements are evaluated from left to
  right and the first exception ends the evaluation.
\<close>

fun map_e :: "('a \<Rightarrow> error + 'b) \<Rightarrow> 'a list \<Rightarrow> error + 'b list" where
  "map_e f [] = Inr []"
| "map_e f (x # xs) =
     (case f x of
        Inl e \<Rightarrow> Inl e
      | Inr y \<Rightarrow> (case map_e f xs of Inl e \<Rightarrow> Inl e | Inr ys \<Rightarrow> Inr (y # ys)))"

text \<open>
  A number is beyond the range of the floats when its magnitude rounds to infinity: the
  largest float is \<open>2 ^ 1024 - 2 ^ 971\<close>, and rounding to nearest sends every magnitude
  from \<open>2 ^ 1024 - 2 ^ 970\<close> on to infinity.
\<close>

definition float_limit :: real where
  "float_limit = 2 ^ 1024 - 2 ^ 970"

definition float_overflows :: "real \<Rightarrow> bool" where
  "float_overflows x \<longleftrightarrow> float_limit \<le> \<bar>x\<bar>"

text \<open>
  \<^verbatim>\<open>b ** e\<close> for a float \<open>b\<close> and an integer \<open>e\<close>. The exponent is converted
  to a float first, which raises \<^verbatim>\<open>OverflowError\<close> when it is beyond the range of the
  floats. Zero raised to a negative power raises \<^verbatim>\<open>ZeroDivisionError\<close>, and a power
  beyond the range of the floats raises \<^verbatim>\<open>OverflowError\<close>. A power too small for the
  floats is rounded to zero without an exception, so it raises nothing here either.
\<close>

definition pow_py :: "real \<Rightarrow> int \<Rightarrow> error + real" where
  "pow_py b e =
     (if float_overflows (of_int e) then Inl OverflowError
      else if 0 \<le> e then
        (if float_overflows (b ^ nat e) then Inl OverflowError else Inr (b ^ nat e))
      else if b = 0 then Inl ZeroDivisionError
      else if float_overflows (inverse (b ^ nat (- e))) then Inl OverflowError
      else Inr (inverse (b ^ nat (- e))))"

text \<open>\<^verbatim>\<open>xs[:k]\<close>: a negative \<open>k\<close> counts from the end of the list.\<close>

definition slice_to :: "int \<Rightarrow> 'a list \<Rightarrow> 'a list" where
  "slice_to k xs =
     (if 0 \<le> k then take (nat k) xs else take (length xs - nat (- k)) xs)"

text \<open>
  \<^verbatim>\<open>d[k] = v\<close> on an insertion-ordered dictionary: an existing key keeps its place
  and takes the new value, a new key goes to the end.
\<close>

fun dict_set :: "int \<Rightarrow> 'v \<Rightarrow> 'v dict \<Rightarrow> 'v dict" where
  "dict_set k v [] = [(k, v)]"
| "dict_set k v ((k', v') # d) =
     (if k' = k then (k', v) # d else (k', v') # dict_set k v d)"

text \<open>\<^verbatim>\<open>dict(items)\<close>: the pairs are inserted one after the other.\<close>

definition dict_py :: "(int \<times> 'v) list \<Rightarrow> 'v dict" where
  "dict_py items = foldl (\<lambda>d (k, v). dict_set k v d) [] items"

text \<open>\<^verbatim>\<open>list(d.keys())\<close>.\<close>

definition keys :: "'v dict \<Rightarrow> int list" where
  "keys d = map fst d"

text \<open>\<^verbatim>\<open>xs.index(x)\<close>: the first position of \<open>x\<close>, \<^verbatim>\<open>ValueError\<close> when there is none.\<close>

fun index_py :: "int list \<Rightarrow> int \<Rightarrow> error + nat" where
  "index_py [] x = Inl ValueError"
| "index_py (y # ys) x =
     (if y = x then Inr 0
      else (case index_py ys x of Inl e \<Rightarrow> Inl e | Inr i \<Rightarrow> Inr (Suc i)))"

text \<open>
  \<^verbatim>\<open>sorted(items, key=f)\<close> is a stable sort by ascending key; it is modelled by the
  stable insertion sort \<^const>\<open>sort_key\<close>.
\<close>

definition sorted_py :: "('a \<Rightarrow> real) \<Rightarrow> 'a list \<Rightarrow> 'a list" where
  "sorted_py f xs = sort_key f xs"

subsection \<open>Progressions (lines 48 to 57 and 60 to 68)\<close>

text \<open>Lines 48 to 51: the start year is moved by the look-back when the look-back is not 0.\<close>

definition effective_start :: "int \<Rightarrow> int \<Rightarrow> int" where
  "effective_start look_back start_year =
     (if look_back = 0 then start_year else start_year + look_back)"

text \<open>
  Lines 48 to 56 for the target year and 60 to 67 for a candidate year: the ONI
  progression of a year.
\<close>

definition oni_progression :: "series \<Rightarrow> int \<Rightarrow> int \<Rightarrow> error + real list" where
  "oni_progression oni_values look_back y =
     (if look_back = 0 then lookup oni_values y
      else (case map_e (lookup oni_values) (range_py (y - look_back) (y + 1)) of
              Inl e \<Rightarrow> Inl e
            | Inr yss \<Rightarrow> Inr (concat yss)))"

text \<open>Line 57 for the target year and line 68 for a candidate year: the PDO progression.\<close>

definition pdo_progression :: "series \<Rightarrow> int \<Rightarrow> error + real list" where
  "pdo_progression pdo_values y = lookup pdo_values y"

subsection \<open>Distances (lines 70 to 80)\<close>

text \<open>
  Lines 70 and 73 to 76 (ONI), 71 and 77 to 80 (PDO): the analog progression is cut to
  the length of the current one, then paired with it by \<^verbatim>\<open>zip\<close>.
\<close>

definition distance_vector :: "int \<Rightarrow> real list \<Rightarrow> real list \<Rightarrow> error + real list" where
  "distance_vector raise_to analog current =
     map_e (\<lambda>(a, c). pow_py \<bar>a - c\<bar> raise_to)
       (zip (take (length current) analog) current)"

text \<open>The body of the loop of lines 59 to 80 for one analog year.\<close>

definition analog_step ::
  "series \<Rightarrow> series \<Rightarrow> int \<Rightarrow> int \<Rightarrow> real list \<Rightarrow> real list \<Rightarrow> int
     \<Rightarrow> error + (real list \<times> real list)" where
  "analog_step oni_values pdo_values look_back raise_to current_oni current_pdo analog_year =
     (case oni_progression oni_values look_back analog_year of
        Inl e \<Rightarrow> Inl e
      | Inr analog_oni \<Rightarrow>
     (case pdo_progression pdo_values analog_year of
        Inl e \<Rightarrow> Inl e
      | Inr analog_pdo \<Rightarrow>
     (case distance_vector raise_to analog_oni current_oni of
        Inl e \<Rightarrow> Inl e
      | Inr oni_d \<Rightarrow>
     (case distance_vector raise_to analog_pdo current_pdo of
        Inl e \<Rightarrow> Inl e
      | Inr pdo_d \<Rightarrow> Inr (oni_d, pdo_d)))))"

text \<open>The loop of lines 59 to 80, threading the two dictionaries of distance vectors.\<close>

fun analog_loop ::
  "series \<Rightarrow> series \<Rightarrow> int \<Rightarrow> int \<Rightarrow> real list \<Rightarrow> real list \<Rightarrow> int list
     \<Rightarrow> real list dict \<times> real list dict \<Rightarrow> error + (real list dict \<times> real list dict)" where
  "analog_loop oni_values pdo_values look_back raise_to current_oni current_pdo [] acc = Inr acc"
| "analog_loop oni_values pdo_values look_back raise_to current_oni current_pdo (y # ys) acc =
     (case analog_step oni_values pdo_values look_back raise_to current_oni current_pdo y of
        Inl e \<Rightarrow> Inl e
      | Inr (oni_d, pdo_d) \<Rightarrow>
          analog_loop oni_values pdo_values look_back raise_to current_oni current_pdo ys
            (dict_set y oni_d (fst acc), dict_set y pdo_d (snd acc)))"

subsection \<open>Ranks and their fusion (lines 82 to 91)\<close>

text \<open>
  The sort key of lines 82 and 83: \<^verbatim>\<open>sum(pair[1])\<close>, here the exact sum of the
  elements, where Python adds floats from left to right and rounds after each addition.
\<close>

definition total_distance :: "int \<times> real list \<Rightarrow> real" where
  "total_distance pair = sum_list (snd pair)"

text \<open>Lines 82 and 83: a dictionary whose keys are in ascending order of total distance.\<close>

definition rank_order :: "real list dict \<Rightarrow> real list dict" where
  "rank_order analogs = dict_py (sorted_py total_distance analogs)"

text \<open>The body of the loop of lines 87 to 91 for one analog year.\<close>

definition fuse_step :: "real list dict \<Rightarrow> real list dict \<Rightarrow> int \<Rightarrow> error + real" where
  "fuse_step oni_analogs pdo_analogs analog_year =
     (case index_py (keys oni_analogs) analog_year of
        Inl e \<Rightarrow> Inl e
      | Inr i \<Rightarrow>
     (case index_py (keys pdo_analogs) analog_year of
        Inl e \<Rightarrow> Inl e
      | Inr j \<Rightarrow> Inr ((real (i + 1) + real (j + 1)) / 2)))"

text \<open>The loop of lines 87 to 91, threading the dictionary of fused scores.\<close>

fun fuse_loop ::
  "real list dict \<Rightarrow> real list dict \<Rightarrow> int list \<Rightarrow> real dict \<Rightarrow> error + real dict" where
  "fuse_loop oni_analogs pdo_analogs [] analogs = Inr analogs"
| "fuse_loop oni_analogs pdo_analogs (y # ys) analogs =
     (case fuse_step oni_analogs pdo_analogs y of
        Inl e \<Rightarrow> Inl e
      | Inr score \<Rightarrow> fuse_loop oni_analogs pdo_analogs ys (dict_set y score analogs))"

text \<open>
  Lines 82 to 91 together: both dictionaries are put in rank order, then every year of
  the pool gets the mean of its two places.
\<close>

definition rank_fuse ::
  "real list dict \<Rightarrow> real list dict \<Rightarrow> int list \<Rightarrow> error + real dict" where
  "rank_fuse oni_analogs pdo_analogs pool =
     fuse_loop (rank_order oni_analogs) (rank_order pdo_analogs) pool []"

subsection \<open>The analog selector (lines 27 to 95)\<close>

definition get_analog ::
  "series \<Rightarrow> series \<Rightarrow> int \<Rightarrow> int \<Rightarrow> int \<Rightarrow> int \<Rightarrow> int \<Rightarrow> error + int list" where
  "get_analog oni_values pdo_values year look_back start_year raise_to years_to_return =
     (let start_year' = effective_start look_back start_year in
      case oni_progression oni_values look_back year of
        Inl e \<Rightarrow> Inl e
      | Inr current_oni \<Rightarrow>
     (case pdo_progression pdo_values year of
        Inl e \<Rightarrow> Inl e
      | Inr current_pdo \<Rightarrow>
     (case analog_loop oni_values pdo_values look_back raise_to current_oni current_pdo
             (range_py start_year' year) ([], []) of
        Inl e \<Rightarrow> Inl e
      | Inr (oni_analogs, pdo_analogs) \<Rightarrow>
     (case rank_fuse oni_analogs pdo_analogs (range_py start_year' year) of
        Inl e \<Rightarrow> Inl e
      | Inr analogs \<Rightarrow>
          Inr (slice_to years_to_return (keys (dict_py (sorted_py snd analogs))))))))"

subsection \<open>The progression of the specification\<close>

text \<open>
  Section 4.1 of the specification, in its own words: the progression of a year for a
  look-back \<open>L\<close> is the concatenation, in ascending year order, of the observation
  sequences of the years from \<open>year - L\<close> to \<open>year\<close> inclusive (for \<open>L = 0\<close> that is
  the year's own sequence), and it fails with a lookup error when a year of that range
  is absent, the first absent year being reported.
\<close>

definition progression_spec :: "series \<Rightarrow> int \<Rightarrow> int \<Rightarrow> error + real list" where
  "progression_spec signal L y =
     (let window = [y - L..y]; absent = filter (\<lambda>k. signal k = None) window
      in if absent = [] then Inr (concat (map (\<lambda>k. the (signal k)) window))
         else Inl (KeyError (hd absent)))"

subsection \<open>Sample series\<close>

text \<open>
  Two small signal series on which the theorems below are instantiated: five years of
  two ONI observations and of one PDO observation each, and a PDO series that lacks 1964.
\<close>

definition oni_sample :: series where
  "oni_sample =
     [1964 \<mapsto> [1, 2], 1965 \<mapsto> [0, 3], 1966 \<mapsto> [1, 1], 1967 \<mapsto> [1, 2], 1968 \<mapsto> [2, 2]]"

definition pdo_sample :: series where
  "pdo_sample = [1964 \<mapsto> [4], 1965 \<mapsto> [5], 1966 \<mapsto> [2], 1967 \<mapsto> [4], 1968 \<mapsto> [3]]"

definition pdo_short :: series where
  "pdo_short = [1965 \<mapsto> [5], 1966 \<mapsto> [2], 1967 \<mapsto> [4], 1968 \<mapsto> [3]]"

text \<open>
  Two series without the year 1965: the candidate 1964 comes before the missing year.
\<close>

definition oni_gap :: series where
  "oni_gap = [1964 \<mapsto> [2], 1966 \<mapsto> [0]]"

definition pdo_gap :: series where
  "pdo_gap = [1964 \<mapsto> [1], 1966 \<mapsto> [1]]"

text \<open>The ONI sample with one more year, after all the years of the sample.\<close>

definition oni_later :: series where
  "oni_later = oni_sample(1969 \<mapsto> [9, 9])"

section \<open>Facts about the primitives and the two loops\<close>

lemma set_range_py: "set (range_py a b) = {a..<b}"
  by (auto simp: range_py_def)

lemma distinct_range_py: "distinct (range_py a b)"
  by (simp add: range_py_def)

lemma length_range_py: "length (range_py a b) = nat (b - a)"
  by (simp add: range_py_def)

lemma range_py_empty: "b \<le> a \<Longrightarrow> range_py a b = []"
  by (simp add: range_py_def)

lemma dict_set_fresh: "k \<notin> fst ` set d \<Longrightarrow> dict_set k v d = d @ [(k, v)]"
  by (induction d) auto

lemma foldl_dict_set_distinct:
  "distinct (map fst (acc @ items)) \<Longrightarrow>
   foldl (\<lambda>d (k, v). dict_set k v d) acc items = acc @ items"
proof (induction items arbitrary: acc)
  case Nil
  then show ?case by simp
next
  case (Cons p items)
  obtain k v where p: "p = (k, v)" by (cases p)
  from Cons.prems have fresh: "k \<notin> fst ` set acc" by (auto simp: p)
  from Cons.prems have "distinct (map fst ((acc @ [(k, v)]) @ items))" by (simp add: p)
  from Cons.IH [OF this] show ?case by (simp add: p dict_set_fresh [OF fresh])
qed

lemma dict_py_distinct: "distinct (map fst items) \<Longrightarrow> dict_py items = items"
  using foldl_dict_set_distinct [of "[]" items] by (simp add: dict_py_def)

lemma map_e_Inr_D: "map_e f xs = Inr ys \<Longrightarrow> list_all2 (\<lambda>x y. f x = Inr y) xs ys"
  by (induction xs arbitrary: ys) (auto split: sum.splits)

lemma map_e_Inr_I: "list_all2 (\<lambda>x y. f x = Inr y) xs ys \<Longrightarrow> map_e f xs = Inr ys"
  by (induction rule: list_all2_induct) auto

lemma map_e_Inr_iff: "map_e f xs = Inr ys \<longleftrightarrow> list_all2 (\<lambda>x y. f x = Inr y) xs ys"
  using map_e_Inr_D map_e_Inr_I by blast

lemma map_e_Inl_D: "map_e f xs = Inl e \<Longrightarrow> \<exists>x\<in>set xs. f x = Inl e"
  by (induction xs) (auto split: sum.splits)

lemma map_e_Inl_first:
  "map_e f xs = Inl e \<Longrightarrow>
   \<exists>ys z zs. xs = ys @ z # zs \<and> f z = Inl e \<and> (\<forall>y\<in>set ys. \<exists>r. f y = Inr r)"
proof (induction xs)
  case Nil
  then show ?case by simp
next
  case (Cons x xs)
  show ?case
  proof (cases "f x")
    case (Inl a)
    with Cons.prems have "x # xs = [] @ x # xs \<and> f x = Inl e" by simp
    then show ?thesis by (metis empty_iff set_empty2)
  next
    case (Inr r)
    with Cons.prems have "map_e f xs = Inl e" by (auto split: sum.splits)
    from Cons.IH [OF this] obtain ys z zs where
      h: "xs = ys @ z # zs" "f z = Inl e" "\<forall>y\<in>set ys. \<exists>r. f y = Inr r" by blast
    from h Inr have "x # xs = (x # ys) @ z # zs \<and> f z = Inl e
        \<and> (\<forall>y\<in>set (x # ys). \<exists>r. f y = Inr r)" by simp
    then show ?thesis by blast
  qed
qed

lemma map_e_total:
  "(\<And>x. x \<in> set xs \<Longrightarrow> \<exists>y. f x = Inr y) \<Longrightarrow> \<exists>ys. map_e f xs = Inr ys"
  by (induction xs) (fastforce split: sum.splits)+

lemma map_e_cong: "(\<And>x. x \<in> set xs \<Longrightarrow> f x = g x) \<Longrightarrow> map_e f xs = map_e g xs"
  by (induction xs) (auto split: sum.splits)

lemma map_e_Inr_length: "map_e f xs = Inr ys \<Longrightarrow> length ys = length xs"
  by (simp add: map_e_Inr_iff list_all2_lengthD)

lemma map_e_Inr_nth: "map_e f xs = Inr ys \<Longrightarrow> i < length xs \<Longrightarrow> f (xs ! i) = Inr (ys ! i)"
  using list_all2_nthD [of "\<lambda>x y. f x = Inr y" xs ys i] by (simp add: map_e_Inr_iff)

lemma map_e_Inr_mem: "map_e f xs = Inr ys \<Longrightarrow> x \<in> set xs \<Longrightarrow> \<exists>y. f x = Inr y"
  by (metis in_set_conv_nth map_e_Inr_nth)

lemma analog_loop_map_e:
  "distinct ys \<Longrightarrow> set ys \<inter> fst ` set (fst acc) = {} \<Longrightarrow> set ys \<inter> fst ` set (snd acc) = {} \<Longrightarrow>
   analog_loop ov pv lb e co cp ys acc =
     (case map_e (analog_step ov pv lb e co cp) ys of
        Inl err \<Rightarrow> Inl err
      | Inr rs \<Rightarrow> Inr (fst acc @ zip ys (map fst rs), snd acc @ zip ys (map snd rs)))"
proof (induction ys arbitrary: acc)
  case Nil
  then show ?case by simp
next
  case (Cons y ys)
  show ?case
  proof (cases "analog_step ov pv lb e co cp y")
    case (Inl err)
    then show ?thesis by simp
  next
    case (Inr r)
    obtain od pd where r: "r = (od, pd)" by (cases r)
    let ?acc = "(dict_set y od (fst acc), dict_set y pd (snd acc))"
    from Cons.prems have f1: "y \<notin> fst ` set (fst acc)" and f2: "y \<notin> fst ` set (snd acc)"
      by auto
    have a1: "fst ?acc = fst acc @ [(y, od)]" and a2: "snd ?acc = snd acc @ [(y, pd)]"
      by (simp_all add: dict_set_fresh f1 f2)
    from Cons.prems have d: "distinct ys" and
      i1: "set ys \<inter> fst ` set (fst ?acc) = {}" and i2: "set ys \<inter> fst ` set (snd ?acc) = {}"
      unfolding a1 a2 by auto
    show ?thesis
      using Cons.IH [OF d i1 i2] Inr unfolding a1 a2
      by (simp add: r split: sum.splits)
  qed
qed

lemma fuse_loop_map_e:
  "distinct ys \<Longrightarrow> set ys \<inter> fst ` set acc = {} \<Longrightarrow>
   fuse_loop oa pa ys acc =
     (case map_e (fuse_step oa pa) ys of
        Inl err \<Rightarrow> Inl err
      | Inr ss \<Rightarrow> Inr (acc @ zip ys ss))"
proof (induction ys arbitrary: acc)
  case Nil
  then show ?case by simp
next
  case (Cons y ys)
  show ?case
  proof (cases "fuse_step oa pa y")
    case (Inl err)
    then show ?thesis by simp
  next
    case (Inr s)
    from Cons.prems have f: "y \<notin> fst ` set acc" by auto
    have a: "dict_set y s acc = acc @ [(y, s)]" by (simp add: dict_set_fresh f)
    from Cons.prems have d: "distinct ys" and i: "set ys \<inter> fst ` set (dict_set y s acc) = {}"
      unfolding a by auto
    show ?thesis using Cons.IH [OF d i] Inr by (simp add: a split: sum.splits)
  qed
qed

lemma index_py_mem:
  "x \<in> set xs \<Longrightarrow> \<exists>i. index_py xs x = Inr i \<and> i < length xs \<and> xs ! i = x"
proof (induction xs)
  case Nil
  then show ?case by simp
next
  case (Cons y ys)
  then show ?case by (cases "y = x") auto
qed


lemma lookup_Inr_iff: "lookup d k = Inr v \<longleftrightarrow> d k = Some v"
  by (simp add: lookup_def split: option.splits)

lemma lookup_Inl_iff: "lookup d k = Inl e \<longleftrightarrow> d k = None \<and> e = KeyError k"
  by (auto simp: lookup_def split: option.splits)

lemma float_limit_numeral [code]:
  "float_limit = 179769313486231580793728971405303415079934132710037826936173778980444968292764750946649017977587207096330286416692887910946555547851940402630657488671505820681908902000708383676273854845817711531764475730270069855571366959622842914819860834936475292719074168444365510704342711559699508093042880177904174497792"
  unfolding float_limit_def by simp

lemma float_limit_pos: "0 < float_limit"
  unfolding float_limit_numeral by simp


lemma pow_py_Inl_D:
  "pow_py b e = Inl err \<Longrightarrow> (err = ZeroDivisionError \<and> e < 0 \<and> b = 0) \<or> err = OverflowError"
  by (auto simp: pow_py_def split: if_splits)


lemma distance_vector_Inl_D:
  "distance_vector e analog current = Inl err \<Longrightarrow>
     (err = ZeroDivisionError \<and> e < 0) \<or> err = OverflowError"
  unfolding distance_vector_def by (drule map_e_Inl_D) (auto dest: pow_py_Inl_D)

lemma oni_progression_Inr_D:
  assumes "oni_progression ov lb y = Inr p"
  shows "lb = 0 \<Longrightarrow> ov y = Some p"
    and "lb \<noteq> 0 \<Longrightarrow> k \<in> {y - lb..y} \<Longrightarrow> ov k \<noteq> None"
    and "lb \<noteq> 0 \<Longrightarrow> p = concat (map (\<lambda>k. the (ov k)) [y - lb..y])"
proof -
  show "lb = 0 \<Longrightarrow> ov y = Some p"
    using assms by (simp add: oni_progression_def lookup_Inr_iff)
next
  assume lb: "lb \<noteq> 0"
  from assms lb obtain yss where yss: "map_e (lookup ov) [y - lb..y] = Inr yss" "p = concat yss"
    by (auto simp: oni_progression_def range_py_def split: sum.splits)
  from yss(1) have all: "list_all2 (\<lambda>k v. ov k = Some v) [y - lb..y] yss"
    by (simp add: map_e_Inr_iff lookup_Inr_iff)
  show "k \<in> {y - lb..y} \<Longrightarrow> ov k \<noteq> None"
    using map_e_Inr_mem [OF yss(1), of k] by (auto simp: lookup_Inr_iff)
  from all have "yss = map (\<lambda>k. the (ov k)) [y - lb..y]"
    by (auto simp: list_all2_conv_all_nth intro!: nth_equalityI)
  with yss(2) show "p = concat (map (\<lambda>k. the (ov k)) [y - lb..y])" by simp
qed

lemma oni_progression_Inl_D:
  assumes "oni_progression ov lb y = Inl err"
  shows "\<exists>k. err = KeyError k \<and> ov k = None \<and> (if lb = 0 then k = y else k \<in> {y - lb..y})"
proof (cases "lb = 0")
  case True
  with assms show ?thesis by (simp add: oni_progression_def lookup_Inl_iff)
next
  case False
  with assms have "map_e (lookup ov) [y - lb..y] = Inl err"
    by (auto simp: oni_progression_def range_py_def split: sum.splits)
  from map_e_Inl_D [OF this] False show ?thesis by (auto simp: lookup_Inl_iff)
qed

lemma oni_progression_present:
  assumes "if lb = 0 then ov y \<noteq> None else \<forall>k\<in>{y - lb..y}. ov k \<noteq> None"
  shows "\<exists>p. oni_progression ov lb y = Inr p"
proof (cases "oni_progression ov lb y")
  case (Inl err)
  from oni_progression_Inl_D [OF this] obtain k
    where k: "ov k = None" "if lb = 0 then k = y else k \<in> {y - lb..y}" by blast
  from k assms have False by (cases "lb = 0") force+
  then show ?thesis ..
next
  case (Inr p)
  then show ?thesis by blast
qed

lemma oni_progression_cong:
  assumes "\<And>k. k \<le> y \<Longrightarrow> ov k = ov' k"
  shows "oni_progression ov lb y = oni_progression ov' lb y"
proof -
  have l: "lookup ov y = lookup ov' y" using assms [of y] by (simp add: lookup_def)
  have "map_e (lookup ov) (range_py (y - lb) (y + 1)) = map_e (lookup ov') (range_py (y - lb) (y + 1))"
    by (rule map_e_cong) (simp add: set_range_py lookup_def assms)
  with l show ?thesis by (simp add: oni_progression_def)
qed

lemma pdo_progression_Inr_iff: "pdo_progression pv y = Inr p \<longleftrightarrow> pv y = Some p"
  by (simp add: pdo_progression_def lookup_Inr_iff)

lemma pdo_progression_Inl_iff: "pdo_progression pv y = Inl err \<longleftrightarrow> pv y = None \<and> err = KeyError y"
  by (simp add: pdo_progression_def lookup_Inl_iff)

lemma analog_step_Inr_D:
  assumes "analog_step ov pv lb e co cp y = Inr r"
  shows "\<exists>ao ap. oni_progression ov lb y = Inr ao \<and> pdo_progression pv y = Inr ap
           \<and> distance_vector e ao co = Inr (fst r) \<and> distance_vector e ap cp = Inr (snd r)"
  using assms by (auto simp: analog_step_def split: sum.splits)

lemma analog_step_Inl_D:
  assumes "analog_step ov pv lb e co cp y = Inl err"
  shows "oni_progression ov lb y = Inl err
       \<or> pdo_progression pv y = Inl err
       \<or> (err = ZeroDivisionError \<and> e < 0) \<or> err = OverflowError"
  using assms by (auto simp: analog_step_def split: sum.splits dest: distance_vector_Inl_D)

lemma analog_step_Inl_cases:
  assumes "analog_step ov pv lb e co cp y = Inl err"
  shows "oni_progression ov lb y = Inl err
       \<or> pdo_progression pv y = Inl err
       \<or> (\<exists>ao ap. oni_progression ov lb y = Inr ao \<and> pdo_progression pv y = Inr ap
            \<and> (distance_vector e ao co = Inl err \<or> distance_vector e ap cp = Inl err))"
  using assms by (auto simp: analog_step_def split: sum.splits)

lemma analog_step_cong:
  assumes "\<And>k. k \<le> y \<Longrightarrow> ov k = ov' k" and "pv y = pv' y"
  shows "analog_step ov pv lb e co cp y = analog_step ov' pv' lb e co cp y"
  using oni_progression_cong [of y ov ov' lb, OF assms(1)] assms(2)
  by (auto simp: analog_step_def pdo_progression_def lookup_def split: sum.splits)

lemma keys_zip: "length vs = length ys \<Longrightarrow> keys (zip ys vs) = ys"
  by (simp add: keys_def)

lemma set_keys_sorted_py: "set (keys (sorted_py f d)) = set (keys d)"
  by (simp add: keys_def sorted_py_def)

lemma distinct_keys_sorted_py: "distinct (keys (sorted_py f d)) = distinct (keys d)"
  by (simp add: keys_def sorted_py_def distinct_map)

lemma length_keys_sorted_py: "length (keys (sorted_py f d)) = length (keys d)"
  by (simp add: keys_def sorted_py_def)

lemma dict_py_sorted_py: "distinct (keys d) \<Longrightarrow> dict_py (sorted_py f d) = sorted_py f d"
  using distinct_keys_sorted_py [of f d] by (simp add: dict_py_distinct keys_def)

lemma rank_order_eq: "distinct (keys d) \<Longrightarrow> rank_order d = sorted_py total_distance d"
  by (simp add: rank_order_def dict_py_sorted_py)

lemma fuse_step_present:
  assumes "y \<in> set (keys oa)" and "y \<in> set (keys pa)"
  shows "\<exists>i j. index_py (keys oa) y = Inr i \<and> index_py (keys pa) y = Inr j
           \<and> fuse_step oa pa y = Inr ((real (i + 1) + real (j + 1)) / 2)"
proof -
  from index_py_mem [OF assms(1)] obtain i where i: "index_py (keys oa) y = Inr i" by blast
  from index_py_mem [OF assms(2)] obtain j where j: "index_py (keys pa) y = Inr j" by blast
  from i j show ?thesis by (simp add: fuse_step_def)
qed

lemma rank_fuse_eq:
  assumes "distinct pool" and "keys oa = pool" and "keys pa = pool"
  shows "\<exists>ss. map_e (fuse_step (rank_order oa) (rank_order pa)) pool = Inr ss
            \<and> rank_fuse oa pa pool = Inr (zip pool ss)"
proof -
  have ko: "set (keys (rank_order oa)) = set pool" and kp: "set (keys (rank_order pa)) = set pool"
    using assms by (simp_all add: rank_order_eq set_keys_sorted_py)
  have "\<exists>ss. map_e (fuse_step (rank_order oa) (rank_order pa)) pool = Inr ss"
  proof (rule map_e_total)
    fix y assume "y \<in> set pool"
    with ko kp fuse_step_present [of y "rank_order oa" "rank_order pa"]
    show "\<exists>s. fuse_step (rank_order oa) (rank_order pa) y = Inr s" by auto
  qed
  then obtain ss where ss: "map_e (fuse_step (rank_order oa) (rank_order pa)) pool = Inr ss" ..
  have "rank_fuse oa pa pool = Inr (zip pool ss)"
    unfolding rank_fuse_def using fuse_loop_map_e [of pool "[]"] assms(1) ss by simp
  with ss show ?thesis by blast
qed

lemma analog_loop_pool:
  assumes "distinct pool"
  shows "analog_loop ov pv lb e co cp pool ([], []) =
     (case map_e (analog_step ov pv lb e co cp) pool of
        Inl err \<Rightarrow> Inl err
      | Inr rs \<Rightarrow> Inr (zip pool (map fst rs), zip pool (map snd rs)))"
  using analog_loop_map_e [of pool "([], [])", OF assms] by (auto split: sum.splits)

text \<open>The normal results of get_analog.\<close>

lemma get_analog_Inr_D:
  assumes "get_analog ov pv year lb s e k = Inr res"
  shows "\<exists>co cp rs ss.
           oni_progression ov lb year = Inr co \<and> pdo_progression pv year = Inr cp
         \<and> map_e (analog_step ov pv lb e co cp) (range_py (effective_start lb s) year) = Inr rs
         \<and> length ss = length (range_py (effective_start lb s) year)
         \<and> res = slice_to k (keys (sorted_py snd (zip (range_py (effective_start lb s) year) ss)))"
proof -
  let ?pool = "range_py (effective_start lb s) year"
  from assms obtain co where co: "oni_progression ov lb year = Inr co"
    by (auto simp: get_analog_def Let_def split: sum.splits)
  from assms co obtain cp where cp: "pdo_progression pv year = Inr cp"
    by (auto simp: get_analog_def Let_def split: sum.splits)
  from assms co cp obtain oa pa where
    lp: "analog_loop ov pv lb e co cp ?pool ([], []) = Inr (oa, pa)"
    by (auto simp: get_analog_def Let_def split: sum.splits)
  from lp obtain rs where rs: "map_e (analog_step ov pv lb e co cp) ?pool = Inr rs"
    and oa: "oa = zip ?pool (map fst rs)" and pa: "pa = zip ?pool (map snd rs)"
    by (auto simp: analog_loop_pool distinct_range_py split: sum.splits)
  have len: "length rs = length ?pool" using rs by (rule map_e_Inr_length)
  have ko: "keys oa = ?pool" and kp: "keys pa = ?pool" by (simp_all add: oa pa keys_zip len)
  from rank_fuse_eq [OF distinct_range_py ko kp] obtain ss where
    ss: "map_e (fuse_step (rank_order oa) (rank_order pa)) ?pool = Inr ss"
    and rf: "rank_fuse oa pa ?pool = Inr (zip ?pool ss)" by blast
  have lss: "length ss = length ?pool" using ss by (rule map_e_Inr_length)
  have d: "distinct (keys (zip ?pool ss))" by (simp add: keys_zip lss distinct_range_py)
  from assms co cp lp rf have "res = slice_to k (keys (sorted_py snd (zip ?pool ss)))"
    by (simp add: get_analog_def Let_def dict_py_sorted_py [OF d])
  with co cp rs lss show ?thesis by blast
qed

lemma get_analog_Inl_D:
  assumes "get_analog ov pv year lb s e k = Inl err"
  shows "oni_progression ov lb year = Inl err
       \<or> pdo_progression pv year = Inl err
       \<or> (\<exists>co cp. oni_progression ov lb year = Inr co \<and> pdo_progression pv year = Inr cp
            \<and> map_e (analog_step ov pv lb e co cp) (range_py (effective_start lb s) year) = Inl err)"
proof -
  let ?pool = "range_py (effective_start lb s) year"
  show ?thesis
  proof (cases "oni_progression ov lb year")
    case (Inl a)
    with assms show ?thesis by (simp add: get_analog_def Let_def)
  next
    case co: (Inr co)
    show ?thesis
    proof (cases "pdo_progression pv year")
      case (Inl a)
      with assms co show ?thesis by (simp add: get_analog_def Let_def)
    next
      case cp: (Inr cp)
      show ?thesis
      proof (cases "map_e (analog_step ov pv lb e co cp) ?pool")
        case (Inl a)
        with assms co cp have "a = err"
          by (simp add: get_analog_def Let_def analog_loop_pool distinct_range_py)
        with Inl co cp show ?thesis by blast
      next
        case (Inr rs)
        have len: "length rs = length ?pool" using Inr by (rule map_e_Inr_length)
        have "\<exists>ss. rank_fuse (zip ?pool (map fst rs)) (zip ?pool (map snd rs)) ?pool = Inr (zip ?pool ss)"
          using rank_fuse_eq [where pool = ?pool and oa = "zip ?pool (map fst rs)"
              and pa = "zip ?pool (map snd rs)"]
          by (auto simp: keys_zip len distinct_range_py)
        with assms co cp Inr have False
          by (auto simp: get_analog_def Let_def analog_loop_pool distinct_range_py)
        then show ?thesis ..
      qed
    qed
  qed
qed

lemma get_analog_Inr_I:
  assumes "oni_progression ov lb year = Inr co" and "pdo_progression pv year = Inr cp"
    and "map_e (analog_step ov pv lb e co cp) (range_py (effective_start lb s) year) = Inr rs"
  shows "\<exists>res. get_analog ov pv year lb s e k = Inr res"
proof (cases "get_analog ov pv year lb s e k")
  case (Inl err)
  from get_analog_Inl_D [OF this] assms show ?thesis by auto
next
  case (Inr res)
  then show ?thesis by blast
qed

lemma set_slice_to: "set (slice_to k xs) \<subseteq> set xs"
  by (auto simp: slice_to_def dest: in_set_takeD)

lemma length_slice_to: "0 \<le> k \<Longrightarrow> int (length (slice_to k xs)) = min k (int (length xs))"
  by (simp add: slice_to_def)

lemma slice_to_all: "int (length xs) \<le> k \<Longrightarrow> slice_to k xs = xs"
  by (simp add: slice_to_def)

lemma get_analog_cong:
  assumes ov: "\<And>k. k \<le> year \<Longrightarrow> ov k = ov' k"
    and pv: "\<And>y. y \<in> insert year {effective_start lb s..<year} \<Longrightarrow> pv y = pv' y"
  shows "get_analog ov pv year lb s e k = get_analog ov' pv' year lb s e k"
proof -
  let ?pool = "range_py (effective_start lb s) year"
  have o: "oni_progression ov lb year = oni_progression ov' lb year"
    by (rule oni_progression_cong) (rule ov)
  have p: "pdo_progression pv year = pdo_progression pv' year"
    using pv [of year] by (simp add: pdo_progression_def lookup_def)
  have m: "map_e (analog_step ov pv lb e co cp) ?pool = map_e (analog_step ov' pv' lb e co cp) ?pool"
    for co cp
  proof (rule map_e_cong)
    fix y assume "y \<in> set ?pool"
    then have y: "effective_start lb s \<le> y" "y < year" by (simp_all add: set_range_py)
    show "analog_step ov pv lb e co cp y = analog_step ov' pv' lb e co cp y"
      by (rule analog_step_cong) (use y ov pv in auto)
  qed
  have l: "analog_loop ov pv lb e co cp ?pool ([], []) = analog_loop ov' pv' lb e co cp ?pool ([], [])"
    for co cp
    by (simp add: analog_loop_pool distinct_range_py m)
  show ?thesis unfolding get_analog_def Let_def o p l ..
qed

lemma get_analog_empty_pool:
  assumes "year \<le> effective_start lb s"
  shows "get_analog ov pv year lb s e k =
          (case oni_progression ov lb year of
             Inl err \<Rightarrow> Inl err
           | Inr co \<Rightarrow> (case pdo_progression pv year of Inl err \<Rightarrow> Inl err | Inr cp \<Rightarrow> Inr []))"
  using assms
  by (simp add: get_analog_def Let_def range_py_empty rank_fuse_def sorted_py_def dict_py_def
      keys_def slice_to_def split: sum.splits)

lemma get_analog_result_keys:
  assumes "get_analog ov pv year lb s e k = Inr res"
  shows "\<exists>perm. set perm = {effective_start lb s..<year}
           \<and> int (length perm) = max 0 (year - effective_start lb s)
           \<and> res = slice_to k perm"
proof -
  let ?pool = "range_py (effective_start lb s) year"
  from get_analog_Inr_D [OF assms] obtain ss where
    lss: "length ss = length ?pool"
    and res: "res = slice_to k (keys (sorted_py snd (zip ?pool ss)))" by blast
  let ?perm = "keys (sorted_py snd (zip ?pool ss))"
  have "set ?perm = {effective_start lb s..<year}"
    by (simp add: set_keys_sorted_py keys_zip lss set_range_py)
  moreover have "int (length ?perm) = max 0 (year - effective_start lb s)"
    by (simp add: length_keys_sorted_py keys_zip lss length_range_py)
  ultimately show ?thesis using res by blast
qed

lemma map_e_lookup_first_absent:
  "map_e (lookup d) ks =
     (if filter (\<lambda>k. d k = None) ks = [] then Inr (map (\<lambda>k. the (d k)) ks)
      else Inl (KeyError (hd (filter (\<lambda>k. d k = None) ks))))"
  by (induction ks) (auto simp: lookup_def split: option.splits)

lemma oni_progression_spec:
  "lb \<noteq> 0 \<Longrightarrow> oni_progression ov lb y = progression_spec ov lb y"
  by (simp add: oni_progression_def progression_spec_def Let_def range_py_def
      map_e_lookup_first_absent)

lemma pdo_progression_spec: "pdo_progression pv y = progression_spec pv 0 y"
  by (simp add: pdo_progression_def progression_spec_def Let_def lookup_def split: option.splits)

lemma progressions_present:
  assumes "oni_progression ov lb c = Inr ao" and "pdo_progression pv c = Inr ap"
  shows "\<not> (pv c = None \<or> (\<exists>j\<in>{c - lb..c}. ov j = None))"
proof -
  from assms(2) have p: "pv c \<noteq> None" by (simp add: pdo_progression_Inr_iff)
  have "ov j \<noteq> None" if j: "j \<in> {c - lb..c}" for j
  proof (cases "lb = 0")
    case True
    with j have "j = c" by simp
    with oni_progression_Inr_D(1) [OF assms(1) True] show ?thesis by simp
  next
    case False
    from oni_progression_Inr_D(2) [OF assms(1) False j] show ?thesis .
  qed
  with p show ?thesis by blast
qed

lemma get_analog_error_kind:
  assumes "get_analog ov pv year lb s e k = Inl err"
  shows "(err = ZeroDivisionError \<and> e < 0) \<or> err = OverflowError
       \<or> (\<exists>y\<in>insert year {effective_start lb s..<year}.
             (err = KeyError y \<and> pv y = None)
           \<or> (\<exists>j\<in>{y - lb..y}. err = KeyError j \<and> ov j = None))"
proof -
  let ?pool = "range_py (effective_start lb s) year"
  have win: "\<exists>j\<in>{y - lb..y}. err = KeyError j \<and> ov j = None"
    if "oni_progression ov lb y = Inl err" for y
    using oni_progression_Inl_D [OF that] by (cases "lb = 0") auto
  from get_analog_Inl_D [OF assms] consider
    (oni) "oni_progression ov lb year = Inl err"
    | (pdo) "pdo_progression pv year = Inl err"
    | (step) co cp where "map_e (analog_step ov pv lb e co cp) ?pool = Inl err"
    by blast
  then show ?thesis
  proof cases
    case oni
    from win [OF this] show ?thesis by blast
  next
    case pdo
    then show ?thesis by (auto simp: pdo_progression_Inl_iff)
  next
    case step
    from map_e_Inl_D [OF this] obtain y where
      y: "y \<in> set ?pool" and st: "analog_step ov pv lb e co cp y = Inl err" by blast
    from y have yin: "y \<in> insert year {effective_start lb s..<year}" by (simp add: set_range_py)
    from analog_step_Inl_D [OF st] consider
      "oni_progression ov lb y = Inl err" | "pdo_progression pv y = Inl err"
      | "(err = ZeroDivisionError \<and> e < 0) \<or> err = OverflowError" by blast
    then show ?thesis
    proof cases
      case 1
      from win [OF this] yin show ?thesis by blast
    next
      case 2
      with yin show ?thesis by (auto simp: pdo_progression_Inl_iff)
    next
      case 3
      then show ?thesis by blast
    qed
  qed
qed

lemma get_analog_Inr_present:
  assumes "get_analog ov pv year lb s e k = Inr res"
    and "y \<in> insert year {effective_start lb s..<year}"
  shows "pv y \<noteq> None" and "j \<in> {y - lb..y} \<Longrightarrow> ov j \<noteq> None"
proof -
  let ?pool = "range_py (effective_start lb s) year"
  from get_analog_Inr_D [OF assms(1)] obtain co cp rs where
    co: "oni_progression ov lb year = Inr co" and cp: "pdo_progression pv year = Inr cp"
    and rs: "map_e (analog_step ov pv lb e co cp) ?pool = Inr rs" by blast
  have "\<exists>ao ap. oni_progression ov lb y = Inr ao \<and> pdo_progression pv y = Inr ap"
  proof (cases "y = year")
    case True
    with co cp show ?thesis by simp
  next
    case False
    with assms(2) have "y \<in> set ?pool" by (simp add: set_range_py)
    from map_e_Inr_mem [OF rs this] obtain r where "analog_step ov pv lb e co cp y = Inr r" ..
    from analog_step_Inr_D [OF this] show ?thesis by blast
  qed
  then obtain ao ap where ao: "oni_progression ov lb y = Inr ao"
    and ap: "pdo_progression pv y = Inr ap" by blast
  from ap show "pv y \<noteq> None" by (simp add: pdo_progression_Inr_iff)
  show "ov j \<noteq> None" if j: "j \<in> {y - lb..y}"
  proof (cases "lb = 0")
    case True
    with j have "j = y" by simp
    with oni_progression_Inr_D(1) [OF ao True] show ?thesis by simp
  next
    case False
    from oni_progression_Inr_D(2) [OF ao False j] show ?thesis .
  qed
qed












section \<open>The claims\<close>

subsection \<open>Size and range of the result\<close>

text \<open>
  Claim C6. Whenever \<^verbatim>\<open>get_analog\<close> returns a list and the number of years asked for
  is not negative, the length of the list is the minimum of that number and of the size
  of the candidate pool, the years from the effective start to the year before the
  target (none when the effective start is not below the target).
\<close>

theorem get_analog_length:
  assumes "get_analog ov pv year lb s e k = Inr res" and "0 \<le> k"
  shows "int (length res) = min k (max 0 (year - effective_start lb s))"
proof -
  from get_analog_result_keys [OF assms(1)] obtain perm where
    len: "int (length perm) = max 0 (year - effective_start lb s)"
    and res: "res = slice_to k perm" by blast
  from length_slice_to [OF assms(2), of perm] len res show ?thesis by simp
qed

theorem get_analog_length_witness:
  "get_analog oni_sample pdo_sample 1968 0 1964 1 3 = Inr [1964, 1966, 1967]
   \<and> (0::int) \<le> 3
   \<and> int (length [1964, 1966, 1967 :: int]) = min 3 (max 0 (1968 - effective_start 0 1964))"
proof -
  have h: "get_analog oni_sample pdo_sample 1968 0 1964 1 3 = Inr [1964, 1966, 1967]"
    by code_simp
  have k: "(0::int) \<le> 3" by simp
  from get_analog_length [OF h k] h show ?thesis by simp
qed

text \<open>
  Claim C7. With a look-back of 0, every year that \<^verbatim>\<open>get_analog\<close> returns lies between
  the start year and the year before the target; the target year itself is never
  returned.
\<close>

theorem get_analog_before_target:
  assumes "get_analog ov pv year 0 s e k = Inr res"
  shows "year \<notin> set res \<and> (\<forall>y\<in>set res. effective_start 0 s \<le> y \<and> y \<le> year - 1)"
proof -
  from get_analog_result_keys [OF assms] obtain perm where
    perm: "set perm = {effective_start 0 s..<year}" and res: "res = slice_to k perm" by blast
  from set_slice_to [of k perm] perm res have "set res \<subseteq> {effective_start 0 s..<year}" by simp
  then show ?thesis by auto
qed

theorem get_analog_before_target_witness:
  "get_analog oni_sample pdo_sample 1968 0 1964 1 5 = Inr [1964, 1966, 1967, 1965]
   \<and> 1968 \<notin> set [1964, 1966, 1967, 1965 :: int]
   \<and> effective_start 0 1964 \<le> 1964 \<and> (1967::int) \<le> 1968 - 1"
proof -
  have h: "get_analog oni_sample pdo_sample 1968 0 1964 1 5 = Inr [1964, 1966, 1967, 1965]"
    by code_simp
  from get_analog_before_target [OF h] h show ?thesis by simp
qed

text \<open>
  Claim C5. With a positive look-back, the effective start is the start year plus the
  look-back, the candidate pool is the list of the years from there to the year before
  the target, every returned year is in the pool, and the whole pool is returned when
  at least as many years are asked for as the pool has.
\<close>

theorem look_back_pool:
  assumes "0 < lb"
  shows "effective_start lb s = s + lb
       \<and> range_py (effective_start lb s) year = [s + lb..year - 1]
       \<and> (\<forall>res. get_analog ov pv year lb s e k = Inr res \<longrightarrow>
            set res \<subseteq> {s + lb..year - 1}
          \<and> (year - (s + lb) \<le> k \<longrightarrow> set res = {s + lb..year - 1}))"
proof -
  from assms have es: "effective_start lb s = s + lb" by (simp add: effective_start_def)
  have pool: "range_py (effective_start lb s) year = [s + lb..year - 1]"
    by (simp add: es range_py_def)
  have "set res \<subseteq> {s + lb..year - 1} \<and> (year - (s + lb) \<le> k \<longrightarrow> set res = {s + lb..year - 1})"
    if r: "get_analog ov pv year lb s e k = Inr res" for res
  proof -
    from get_analog_result_keys [OF r] obtain perm where
      perm: "set perm = {s + lb..<year}" and len: "int (length perm) = max 0 (year - (s + lb))"
      and res: "res = slice_to k perm" unfolding es by blast
    have eq: "{s + lb..<year} = {s + lb..year - 1}" by auto
    from set_slice_to [of k perm] perm res have sub: "set res \<subseteq> {s + lb..year - 1}"
      by (simp add: eq)
    have "set res = {s + lb..year - 1}" if "year - (s + lb) \<le> k"
    proof (cases "0 \<le> year - (s + lb)")
      case True
      with that len have "int (length perm) \<le> k" by simp
      from slice_to_all [OF this] res perm show ?thesis by (simp add: eq)
    next
      case False
      then have "{s + lb..year - 1} = {}" by simp
      with sub show ?thesis by simp
    qed
    with sub show ?thesis by blast
  qed
  with es pool show ?thesis by blast
qed

theorem look_back_pool_witness:
  "(0::int) < 2
   \<and> effective_start 2 1964 = 1964 + 2
   \<and> range_py (effective_start 2 1964) 1968 = [1966, 1967]
   \<and> get_analog oni_sample pdo_sample 1968 2 1964 1 5 = Inr [1966, 1967]
   \<and> set [1966, 1967 :: int] = {1964 + 2..1968 - 1}"
proof -
  have l: "(0::int) < 2" by simp
  have h: "get_analog oni_sample pdo_sample 1968 2 1964 1 5 = Inr [1966, 1967]"
    by code_simp
  have u: "[1964 + 2..1968 - 1] = [1966, 1967 :: int]" by code_simp
  have p: "range_py 1966 1968 = [1966, 1967]" by code_simp
  from look_back_pool [OF l, of 1964 1968 oni_sample pdo_sample 1 5] h u p show ?thesis
    by simp
qed

subsection \<open>Errors\<close>

text \<open>
  Claim C2, as stated, fails: a target year that is not above the effective start gives
  an empty candidate pool, and \<^verbatim>\<open>get_analog\<close> then returns the empty list, not an error.
\<close>

theorem empty_pool_counterexample:
  "1964 \<le> effective_start 0 1964
   \<and> get_analog oni_sample pdo_sample 1964 0 1964 1 5 = Inr []"
  by code_simp

text \<open>
  Claim C2, amended. When the target year is not above the effective start, \<^verbatim>\<open>get_analog\<close>
  returns the empty list if the target year is in the PDO series and the years of the
  target's window are in the ONI series; otherwise it fails with the \<^verbatim>\<open>KeyError\<close> of a
  missing year. There is no error for the empty pool itself.
\<close>

theorem empty_pool_result:
  assumes "year \<le> effective_start lb s"
  shows "(pv year \<noteq> None \<and> (\<forall>j\<in>{year - lb..year}. ov j \<noteq> None)
            \<longrightarrow> get_analog ov pv year lb s e k = Inr [])
       \<and> (\<not> (pv year \<noteq> None \<and> (\<forall>j\<in>{year - lb..year}. ov j \<noteq> None))
            \<longrightarrow> (\<exists>j. get_analog ov pv year lb s e k = Inl (KeyError j)))"
proof -
  note eq = get_analog_empty_pool [OF assms, of ov pv e k]
  have a: "get_analog ov pv year lb s e k = Inr []"
    if p: "pv year \<noteq> None" and o: "\<forall>j\<in>{year - lb..year}. ov j \<noteq> None"
  proof -
    from o have "if lb = 0 then ov year \<noteq> None else \<forall>k\<in>{year - lb..year}. ov k \<noteq> None"
      by simp
    from oni_progression_present [OF this] obtain co where "oni_progression ov lb year = Inr co" ..
    moreover from p obtain cp where "pdo_progression pv year = Inr cp"
      by (auto simp: pdo_progression_Inr_iff)
    ultimately show ?thesis using eq by simp
  qed
  have b: "\<exists>j. get_analog ov pv year lb s e k = Inl (KeyError j)"
    if n: "\<not> (pv year \<noteq> None \<and> (\<forall>j\<in>{year - lb..year}. ov j \<noteq> None))"
  proof (cases "get_analog ov pv year lb s e k")
    case (Inl err)
    with eq have "oni_progression ov lb year = Inl err \<or> pdo_progression pv year = Inl err"
      by (auto split: sum.splits)
    then have "\<exists>j. err = KeyError j"
      using oni_progression_Inl_D [of ov lb year err] by (auto simp: pdo_progression_Inl_iff)
    with Inl show ?thesis by blast
  next
    case (Inr res)
    from get_analog_Inr_present [OF Inr, of year] n have False by auto
    then show ?thesis ..
  qed
  from a b show ?thesis by blast
qed

theorem empty_pool_result_witness:
  "1964 \<le> effective_start 0 1964 \<and> pdo_sample 1964 \<noteq> None \<and> oni_sample 1964 \<noteq> None
   \<and> get_analog oni_sample pdo_sample 1964 0 1964 1 5 = Inr []"
proof -
  have h: "1964 \<le> effective_start 0 1964" by (simp add: effective_start_def)
  have p: "pdo_sample 1964 \<noteq> None" and o: "oni_sample 1964 \<noteq> None"
    by (simp_all add: pdo_sample_def oni_sample_def)
  from empty_pool_result [OF h, of pdo_sample oni_sample 1 5] p o show ?thesis
    using h by simp
qed

text \<open>
  Claim C8, as stated, fails: with a look-back of 1 the year 1964 lies in the look-back
  window of the candidate 1965 and is absent from the PDO series, and \<^verbatim>\<open>get_analog\<close>
  still returns a list.
\<close>

theorem missing_year_counterexample:
  "pdo_short 1964 = None \<and> 1965 \<in> set (range_py (effective_start 1 1964) 1968)
   \<and> 1964 \<in> set (range_py (1965 - 1) (1965 + 1))
   \<and> get_analog oni_sample pdo_short 1968 1 1964 1 5 = Inr [1967, 1966, 1965]"
  by code_simp

text \<open>
  After the counterexample, two more runs on series without the year 1965, with the
  target 1966 and the candidates 1964 and 1965. The exception that \<^verbatim>\<open>get_analog\<close>
  raises is the first one of its evaluation: with the exponent 1 it is the \<^verbatim>\<open>KeyError\<close>
  of 1965, but with the exponent 2000 the ONI power of the candidate 1964 raises
  \<^verbatim>\<open>OverflowError\<close> before 1965 is looked up, and with the exponent -1 the PDO power
  of the candidate 1964 raises \<^verbatim>\<open>ZeroDivisionError\<close>.
\<close>

lemma power_error_before_missing_year:
  "oni_gap 1965 = None
   \<and> get_analog oni_gap pdo_gap 1966 0 1964 1 5 = Inl (KeyError 1965)
   \<and> get_analog oni_gap pdo_gap 1966 0 1964 2000 5 = Inl OverflowError
   \<and> get_analog oni_gap pdo_gap 1966 0 1964 (- 1) 5 = Inl ZeroDivisionError"
proof -
  have r: "range_py 1964 1966 = [1964, 1965]" by code_simp
  have a: "oni_gap 1965 = None" by (simp add: oni_gap_def)
  have b: "get_analog oni_gap pdo_gap 1966 0 1964 1 5 = Inl (KeyError 1965)"
    by code_simp
  have c: "get_analog oni_gap pdo_gap 1966 0 1964 2000 5 = Inl OverflowError"
    by (simp add: get_analog_def Let_def effective_start_def oni_progression_def
        pdo_progression_def lookup_def oni_gap_def pdo_gap_def r analog_step_def
        distance_vector_def pow_py_def float_overflows_def float_limit_numeral)
  have d: "get_analog oni_gap pdo_gap 1966 0 1964 (- 1) 5 = Inl ZeroDivisionError"
    by code_simp
  from a b c d show ?thesis by blast
qed

text \<open>
  Claim C8, amended. Let \<open>y\<close> be the target year or a candidate year. If \<open>y\<close> is absent
  from the PDO series, or a year of \<open>y\<close>'s window (from \<open>y - look_back\<close> to \<open>y\<close>) is absent
  from the ONI series, then \<^verbatim>\<open>get_analog\<close> returns no list: it fails with the first
  exception of its evaluation. That exception is the \<^verbatim>\<open>KeyError\<close> of a year that the
  target or a candidate needs and that is absent from the series read, unless \<open>y\<close> is
  a candidate and a power of an earlier candidate, all of whose years are present, has
  raised \<^verbatim>\<open>ZeroDivisionError\<close> (with a negative exponent only) or \<^verbatim>\<open>OverflowError\<close>.
  In particular a missing year of the target always gives the \<^verbatim>\<open>KeyError\<close>.
\<close>

theorem missing_year_fails:
  assumes "y \<in> insert year {effective_start lb s..<year}"
    and "pv y = None \<or> (\<exists>j\<in>{y - lb..y}. ov j = None)"
  shows "\<exists>err. get_analog ov pv year lb s e k = Inl err
       \<and> ((\<exists>c\<in>insert year {effective_start lb s..<year}.
              (err = KeyError c \<and> pv c = None)
            \<or> (\<exists>j\<in>{c - lb..c}. err = KeyError j \<and> ov j = None))
          \<or> (y < year \<and> ((err = ZeroDivisionError \<and> e < 0) \<or> err = OverflowError)
             \<and> (\<exists>c\<in>{effective_start lb s..<y}. \<exists>ao ap co cp.
                  oni_progression ov lb c = Inr ao \<and> pdo_progression pv c = Inr ap
                \<and> oni_progression ov lb year = Inr co \<and> pdo_progression pv year = Inr cp
                \<and> (distance_vector e ao co = Inl err \<or> distance_vector e ap cp = Inl err))))"
proof (cases "get_analog ov pv year lb s e k")
  case (Inr res)
  have p: "pv y \<noteq> None" by (rule get_analog_Inr_present(1) [OF Inr assms(1)])
  have o: "ov j \<noteq> None" if "j \<in> {y - lb..y}" for j
    using get_analog_Inr_present(2) [OF Inr assms(1) that] .
  from assms(2) have False
  proof
    assume "pv y = None"
    with p show False ..
  next
    assume "\<exists>j\<in>{y - lb..y}. ov j = None"
    then obtain j where j: "j \<in> {y - lb..y}" and n: "ov j = None" by blast
    from o [OF j] n show False ..
  qed
  then show ?thesis ..
next
  case (Inl err)
  let ?pool = "range_py (effective_start lb s) year"
  let ?K = "\<exists>c\<in>insert year {effective_start lb s..<year}.
              (err = KeyError c \<and> pv c = None)
            \<or> (\<exists>j\<in>{c - lb..c}. err = KeyError j \<and> ov j = None)"
  let ?A = "y < year \<and> ((err = ZeroDivisionError \<and> e < 0) \<or> err = OverflowError)
             \<and> (\<exists>c\<in>{effective_start lb s..<y}. \<exists>ao ap co cp.
                  oni_progression ov lb c = Inr ao \<and> pdo_progression pv c = Inr ap
                \<and> oni_progression ov lb year = Inr co \<and> pdo_progression pv year = Inr cp
                \<and> (distance_vector e ao co = Inl err \<or> distance_vector e ap cp = Inl err))"
  have win: "\<exists>j\<in>{c - lb..c}. err = KeyError j \<and> ov j = None"
    if "oni_progression ov lb c = Inl err" for c
    using oni_progression_Inl_D [OF that] by (cases "lb = 0") auto
  have present: "c \<noteq> y"
    if "oni_progression ov lb c = Inr ao" and "pdo_progression pv c = Inr ap" for c ao ap
    using progressions_present [OF that] assms(2) by blast
  from get_analog_Inl_D [OF Inl] consider
    (oni) "oni_progression ov lb year = Inl err"
    | (pdo) "pdo_progression pv year = Inl err"
    | (step) co cp where "oni_progression ov lb year = Inr co" "pdo_progression pv year = Inr cp"
        "map_e (analog_step ov pv lb e co cp) ?pool = Inl err"
    by blast
  then have "?K \<or> ?A"
  proof cases
    case oni
    from win [OF this] show ?thesis by blast
  next
    case pdo
    then show ?thesis by (auto simp: pdo_progression_Inl_iff)
  next
    case step
    from map_e_Inl_first [OF step(3)] obtain ys z zs where
      sp: "?pool = ys @ z # zs" and fz: "analog_step ov pv lb e co cp z = Inl err"
      and pre: "\<forall>c\<in>set ys. \<exists>r. analog_step ov pv lb e co cp c = Inr r" by blast
    have "z \<in> set ?pool" by (simp add: sp)
    then have zin: "z \<in> {effective_start lb s..<year}" by (simp add: set_range_py)
    from analog_step_Inl_cases [OF fz] consider
      (o) "oni_progression ov lb z = Inl err" | (p) "pdo_progression pv z = Inl err"
      | (d) ao ap where "oni_progression ov lb z = Inr ao" "pdo_progression pv z = Inr ap"
          "distance_vector e ao co = Inl err \<or> distance_vector e ap cp = Inl err"
      by blast
    then show ?thesis
    proof cases
      case o
      from win [OF this] zin show ?thesis by blast
    next
      case p
      with zin show ?thesis by (auto simp: pdo_progression_Inl_iff)
    next
      case d
      from present [OF step(1, 2)] assms(1) have yp: "y \<in> set ?pool"
        by (auto simp: set_range_py)
      then have ylt: "y < year" by (simp add: set_range_py)
      have yz: "y \<noteq> z" using present [OF d(1, 2)] by simp
      have "y \<notin> set ys"
      proof
        assume "y \<in> set ys"
        with pre obtain r where "analog_step ov pv lb e co cp y = Inr r" by blast
        from analog_step_Inr_D [OF this] present show False by blast
      qed
      with yp yz have yzs: "y \<in> set zs" by (simp add: sp)
      have "sorted ?pool" by (simp add: range_py_def)
      then have "sorted (z # zs)" by (simp add: sp sorted_append)
      with yzs have "z \<le> y" by auto
      with yz have "z < y" by simp
      with zin have zc: "z \<in> {effective_start lb s..<y}" by simp
      from d(3) have kind: "(err = ZeroDivisionError \<and> e < 0) \<or> err = OverflowError"
        using distance_vector_Inl_D by blast
      from zc d step(1, 2) have
        "\<exists>c\<in>{effective_start lb s..<y}. \<exists>ao ap co cp.
            oni_progression ov lb c = Inr ao \<and> pdo_progression pv c = Inr ap
          \<and> oni_progression ov lb year = Inr co \<and> pdo_progression pv year = Inr cp
          \<and> (distance_vector e ao co = Inl err \<or> distance_vector e ap cp = Inl err)"
        by blast
      with ylt kind show ?thesis by blast
    qed
  qed
  with Inl show ?thesis by blast
qed

theorem missing_year_fails_witness:
  "1964 \<in> insert 1968 {effective_start 0 1964..<1968} \<and> pdo_short 1964 = None
   \<and> get_analog oni_sample pdo_short 1968 0 1964 1 5 = Inl (KeyError 1964)"
proof -
  have y: "1964 \<in> insert 1968 {effective_start 0 1964..<1968}"
    by (simp add: effective_start_def)
  have p: "pdo_short 1964 = None" by (simp add: pdo_short_def)
  then have m: "pdo_short 1964 = None \<or> (\<exists>j\<in>{1964 - 0..1964}. oni_sample j = None)" ..
  have v: "get_analog oni_sample pdo_short 1968 0 1964 1 5 = Inl (KeyError 1964)"
    by code_simp
  from missing_year_fails [where y = 1964 and year = 1968 and lb = 0 and s = 1964
      and pv = pdo_short and ov = oni_sample and e = 1 and k = 5, OF y m] v y p
  show ?thesis by simp
qed

subsection \<open>Progressions and determinism\<close>

text \<open>
  Claim C1, as stated, fails for the PDO signal: with a look-back of 1 the PDO
  progression of 1967 that the code compares is the sequence of 1967 alone, while the
  concatenation over the years 1966 and 1967 has the observation of 1966 in front.
\<close>

theorem pdo_progression_counterexample:
  "pdo_progression pdo_sample 1967 = Inr [4]
   \<and> progression_spec pdo_sample 1 1967 = Inr [2, 4]"
  by code_simp

text \<open>
  Claim C1, amended. For a positive look-back \<open>L\<close>, the ONI progression of a year is the
  concatenation, in ascending year order, of the ONI sequences of the years from
  \<open>year - L\<close> to \<open>year\<close>, as the specification says; the PDO progression of a year is
  the PDO sequence of that year alone, the progression of the specification for a
  look-back of 0. These are the progressions that \<^verbatim>\<open>get_analog\<close> works on, for the
  target year and for every candidate year: its result, a list or an exception, is the
  one obtained from them by taking, for every year of the pool in ascending order, the
  two distance vectors of the candidate's progressions against the target's, then
  fusing the ranks and cutting the sorted keys.
\<close>

theorem progressions_of_get_analog:
  assumes "0 < lb"
  shows "oni_progression ov lb y = progression_spec ov lb y
       \<and> pdo_progression pv y = progression_spec pv 0 y
       \<and> get_analog ov pv year lb s e k =
          (case progression_spec ov lb year of
             Inl err \<Rightarrow> Inl err
           | Inr current_oni \<Rightarrow>
          (case progression_spec pv 0 year of
             Inl err \<Rightarrow> Inl err
           | Inr current_pdo \<Rightarrow>
          (case map_e (\<lambda>c.
                   case progression_spec ov lb c of
                     Inl err \<Rightarrow> Inl err
                   | Inr analog_oni \<Rightarrow>
                  (case progression_spec pv 0 c of
                     Inl err \<Rightarrow> Inl err
                   | Inr analog_pdo \<Rightarrow>
                  (case distance_vector e analog_oni current_oni of
                     Inl err \<Rightarrow> Inl err
                   | Inr oni_d \<Rightarrow>
                  (case distance_vector e analog_pdo current_pdo of
                     Inl err \<Rightarrow> Inl err
                   | Inr pdo_d \<Rightarrow> Inr (oni_d, pdo_d)))))
                 [s + lb..year - 1] of
             Inl err \<Rightarrow> Inl err
           | Inr ds \<Rightarrow>
          (case rank_fuse (zip [s + lb..year - 1] (map fst ds))
                  (zip [s + lb..year - 1] (map snd ds)) [s + lb..year - 1] of
             Inl err \<Rightarrow> Inl err
           | Inr analogs \<Rightarrow>
               Inr (slice_to k (keys (dict_py (sorted_py snd analogs))))))))"
proof -
  from assms have lb: "lb \<noteq> 0" by simp
  have o: "oni_progression ov lb c = progression_spec ov lb c" for c
    using lb by (rule oni_progression_spec)
  have p: "pdo_progression pv c = progression_spec pv 0 c" for c
    by (rule pdo_progression_spec)
  have pool: "range_py (effective_start lb s) year = [s + lb..year - 1]"
    using lb by (simp add: effective_start_def range_py_def)
  have d: "distinct [s + lb..year - 1]" by simp
  have st: "analog_step ov pv lb e co cp = (\<lambda>c.
      case progression_spec ov lb c of
        Inl err \<Rightarrow> Inl err
      | Inr analog_oni \<Rightarrow>
     (case progression_spec pv 0 c of
        Inl err \<Rightarrow> Inl err
      | Inr analog_pdo \<Rightarrow>
     (case distance_vector e analog_oni co of
        Inl err \<Rightarrow> Inl err
      | Inr oni_d \<Rightarrow>
     (case distance_vector e analog_pdo cp of
        Inl err \<Rightarrow> Inl err
      | Inr pdo_d \<Rightarrow> Inr (oni_d, pdo_d)))))" for co cp
    unfolding analog_step_def o p by (rule refl)
  have g: "get_analog ov pv year lb s e k =
          (case progression_spec ov lb year of
             Inl err \<Rightarrow> Inl err
           | Inr current_oni \<Rightarrow>
          (case progression_spec pv 0 year of
             Inl err \<Rightarrow> Inl err
           | Inr current_pdo \<Rightarrow>
          (case map_e (analog_step ov pv lb e current_oni current_pdo) [s + lb..year - 1] of
             Inl err \<Rightarrow> Inl err
           | Inr ds \<Rightarrow>
          (case rank_fuse (zip [s + lb..year - 1] (map fst ds))
                  (zip [s + lb..year - 1] (map snd ds)) [s + lb..year - 1] of
             Inl err \<Rightarrow> Inl err
           | Inr analogs \<Rightarrow>
               Inr (slice_to k (keys (dict_py (sorted_py snd analogs))))))))"
    unfolding get_analog_def Let_def pool o p analog_loop_pool [OF d]
    by (simp split: sum.splits)
  from o p g [unfolded st] show ?thesis by blast
qed

theorem progressions_of_get_analog_witness:
  "(0::int) < 1
   \<and> oni_progression oni_sample 1 1967 = Inr [1, 1, 1, 2]
   \<and> pdo_progression pdo_sample 1967 = Inr [4]
   \<and> get_analog oni_sample pdo_sample 1968 1 1964 1 5 = Inr [1967, 1966, 1965]"
proof -
  have l: "(0::int) < 1" by simp
  have v: "progression_spec oni_sample 1 1967 = Inr [1, 1, 1, 2]" by code_simp
  have w: "progression_spec pdo_sample 0 1967 = Inr [4]" by code_simp
  have r: "(case progression_spec oni_sample 1 1968 of
             Inl err \<Rightarrow> Inl err
           | Inr current_oni \<Rightarrow>
          (case progression_spec pdo_sample 0 1968 of
             Inl err \<Rightarrow> Inl err
           | Inr current_pdo \<Rightarrow>
          (case map_e (\<lambda>c.
                   case progression_spec oni_sample 1 c of
                     Inl err \<Rightarrow> Inl err
                   | Inr analog_oni \<Rightarrow>
                  (case progression_spec pdo_sample 0 c of
                     Inl err \<Rightarrow> Inl err
                   | Inr analog_pdo \<Rightarrow>
                  (case distance_vector 1 analog_oni current_oni of
                     Inl err \<Rightarrow> Inl err
                   | Inr oni_d \<Rightarrow>
                  (case distance_vector 1 analog_pdo current_pdo of
                     Inl err \<Rightarrow> Inl err
                   | Inr pdo_d \<Rightarrow> Inr (oni_d, pdo_d)))))
                 [1964 + 1..1968 - 1] of
             Inl err \<Rightarrow> Inl err
           | Inr ds \<Rightarrow>
          (case rank_fuse (zip [1964 + 1..1968 - 1] (map fst ds))
                  (zip [1964 + 1..1968 - 1] (map snd ds)) [1964 + 1..1968 - 1] of
             Inl err \<Rightarrow> Inl err
           | Inr analogs \<Rightarrow>
               Inr (slice_to 5 (keys (dict_py (sorted_py snd analogs)))))))) = Inr [1967, 1966, 1965]"
    by code_simp
  from progressions_of_get_analog [OF l, where ov = oni_sample and pv = pdo_sample and y = 1967
      and year = 1968 and s = 1964 and e = 1 and k = 5]
  have "oni_progression oni_sample 1 1967 = progression_spec oni_sample 1 1967"
    and "pdo_progression pdo_sample 1967 = progression_spec pdo_sample 0 1967"
    and "get_analog oni_sample pdo_sample 1968 1 1964 1 5 = Inr [1967, 1966, 1965]"
    unfolding r by blast+
  with l v w show ?thesis by simp
qed

text \<open>
  Claim C9. The list (or the error) that \<^verbatim>\<open>get_analog\<close> produces is a function of its
  five arguments and of the contents of the two series at the years up to the target
  year: two calls with the same arguments on stores that agree there, in particular on
  an unchanged store, produce the same output.
\<close>

theorem get_analog_deterministic:
  assumes "\<And>y. y \<le> year \<Longrightarrow> ov y = ov' y" and "\<And>y. y \<le> year \<Longrightarrow> pv y = pv' y"
  shows "get_analog ov pv year lb s e k = get_analog ov' pv' year lb s e k"
proof (rule get_analog_cong)
  fix j assume "j \<le> year"
  then show "ov j = ov' j" by (rule assms(1))
next
  fix y assume "y \<in> insert year {effective_start lb s..<year}"
  then have "y \<le> year" by auto
  then show "pv y = pv' y" by (rule assms(2))
qed

theorem get_analog_deterministic_witness:
  "get_analog oni_sample pdo_sample 1968 1 1964 1 5
     = get_analog oni_later pdo_sample 1968 1 1964 1 5
   \<and> get_analog oni_later pdo_sample 1968 1 1964 1 5 = Inr [1967, 1966, 1965]"
proof -
  have o: "oni_sample y = oni_later y" if "y \<le> 1968" for y
    using that by (simp add: oni_later_def)
  have v: "get_analog oni_sample pdo_sample 1968 1 1964 1 5 = Inr [1967, 1966, 1965]"
    by code_simp
  from get_analog_deterministic [of 1968 oni_sample oni_later pdo_sample pdo_sample 1 1964 1 5, OF o refl] v
  show ?thesis by simp
qed

subsection \<open>Distances and ranks\<close>








end
